theory Spec2Isabelle
  imports Main "HOL-Library.AList"
begin

section \<open>Exceptions\<close>

text \<open>
  The Python exceptions that the two modules can raise or catch. A call that may raise
  returns \<open>error + 'a\<close>, with \<open>Inl\<close> for the exception.
\<close>

datatype error =
    FileNotFoundError
  | FileExistsError
  | NotADirectoryError
  | IsADirectoryError
  | PermissionError
  | NameTooLongError
  | InvalidArgumentError
  | UnicodeDecodeError
  | JSONDecodeError
  | KeyError
  | TypeError
  | AttributeError
  | RuntimeError

text \<open>
  \<open>OSError\<close> is a base class; \<open>InvalidArgumentError\<close> and
  \<open>NameTooLongError\<close> stand for a plain \<open>OSError\<close> with errno \<open>EINVAL\<close>
  and \<open>ENAMETOOLONG\<close>.
\<close>

definition is_OSError :: "error \<Rightarrow> bool" where
  "is_OSError e = (e = FileNotFoundError \<or> e = FileExistsError \<or> e = NotADirectoryError
     \<or> e = IsADirectoryError \<or> e = PermissionError \<or> e = NameTooLongError
     \<or> e = InvalidArgumentError)"

section \<open>The storage adapter (database_solved.py)\<close>

subsection \<open>JSON values and file texts\<close>

text \<open>
  What \<open>json.load\<close> can return. \<open>JNumber\<close> carries an integer; a fractional
  number takes the same branches everywhere below. \<open>JObject\<close> holds the items of
  the parsed dict.
\<close>

datatype json =
    JNull
  | JBool bool
  | JNumber int
  | JString string
  | JArray "json list"
  | JObject "(string \<times> json) list"

text \<open>
  The content of a file, identified by what \<open>json.load\<close> makes of it: bytes that
  are no text in the encoding of the file (reading them raises
  \<open>UnicodeDecodeError\<close>), a text that is not JSON (\<open>JSONDecodeError\<close>), or a
  text that denotes a JSON value. \<open>json.dumps\<close> produces a text that denotes the
  value it was given.
\<close>

datatype file_text = Undecodable | Malformed | Encodes json

definition json_dumps :: "json \<Rightarrow> file_text" where
  "json_dumps data = Encodes data"

definition json_load :: "file_text \<Rightarrow> error + json" where
  "json_load t =
     (case t of
        Undecodable \<Rightarrow> Inl UnicodeDecodeError
      | Malformed \<Rightarrow> Inl JSONDecodeError
      | Encodes data \<Rightarrow> Inr data)"

text \<open>\<open>data[field]\<close> for a string \<open>field\<close>: only a dict can be subscripted so.\<close>

definition subscript :: "json \<Rightarrow> string \<Rightarrow> error + json" where
  "subscript data field =
     (case data of
        JObject items \<Rightarrow> (case map_of items field of None \<Rightarrow> Inl KeyError | Some x \<Rightarrow> Inr x)
      | _ \<Rightarrow> Inl TypeError)"

text \<open>\<open>x.encode()\<close>: only a \<open>str\<close> has the method.\<close>

definition encode :: "json \<Rightarrow> error + string" where
  "encode x = (case x of JString s \<Rightarrow> Inr s | _ \<Rightarrow> Inl AttributeError)"

text \<open>Python's truth value of a JSON value (\<open>if data\<close>).\<close>

definition truthy :: "json \<Rightarrow> bool" where
  "truthy x =
     (case x of
        JNull \<Rightarrow> False
      | JBool b \<Rightarrow> b
      | JNumber n \<Rightarrow> n \<noteq> 0
      | JString s \<Rightarrow> s \<noteq> []
      | JArray xs \<Rightarrow> xs \<noteq> []
      | JObject items \<Rightarrow> items \<noteq> [])"

subsection \<open>The file system at the storage path\<close>

text \<open>
  An entry of the storage directory is a regular file with its text, or a subdirectory
  (which can be neither opened as a file nor unlinked).
\<close>

datatype entry = Regular file_text | Subdirectory

type_synonym listing = "string \<rightharpoonup> entry"

text \<open>
  What a symbolic link at the storage path resolves to: nothing, a regular file, a
  directory, or something else (a FIFO, a socket, a device).
\<close>

datatype link_target = Dangling | To_file | To_dir listing | To_other

text \<open>
  What the file system holds at \<open>_storage_directory\<close>: nothing, a regular file, a
  regular file that may not be removed (\<open>unlink\<close> is refused), something that is
  neither file, directory nor link (a FIFO, a socket, a device), a directory, or a
  symbolic link. Directories and links can always be removed and entries can always be
  written; quotas and device failures are not modelled.
\<close>

datatype node =
    Missing
  | RegularFile
  | ProtectedFile
  | Other
  | Directory listing
  | Symlink link_target

text \<open>The \<open>pathlib\<close> tests on the storage path; all but \<open>is_symlink\<close> follow links.\<close>

definition exists :: "node \<Rightarrow> bool" where
  "exists n = (case n of Missing \<Rightarrow> False | Symlink Dangling \<Rightarrow> False | _ \<Rightarrow> True)"

definition is_file :: "node \<Rightarrow> bool" where
  "is_file n =
     (case n of
        RegularFile \<Rightarrow> True
      | ProtectedFile \<Rightarrow> True
      | Symlink To_file \<Rightarrow> True
      | _ \<Rightarrow> False)"

definition is_symlink :: "node \<Rightarrow> bool" where
  "is_symlink n = (case n of Symlink _ \<Rightarrow> True | _ \<Rightarrow> False)"

definition is_dir :: "node \<Rightarrow> bool" where
  "is_dir n = (case n of Directory _ \<Rightarrow> True | Symlink (To_dir _) \<Rightarrow> True | _ \<Rightarrow> False)"

text \<open>\<open>Path.unlink()\<close> removes a file or a link, never a directory.\<close>

definition unlink :: "node \<Rightarrow> error + node" where
  "unlink n =
     (case n of
        Missing \<Rightarrow> Inl FileNotFoundError
      | Directory _ \<Rightarrow> Inl IsADirectoryError
      | ProtectedFile \<Rightarrow> Inl PermissionError
      | _ \<Rightarrow> Inr Missing)"

text \<open>
  \<open>Path.mkdir(parents=True, exist_ok=True)\<close>: an existing path is accepted only when
  \<open>is_dir()\<close> holds of it.
\<close>

definition mkdir :: "node \<Rightarrow> error + node" where
  "mkdir n =
     (case n of
        Missing \<Rightarrow> Inr (Directory Map.empty)
      | _ \<Rightarrow> if is_dir n then Inr n else Inl FileExistsError)"

text \<open>
  \<open>shutil.rmtree(path, ignore_errors=True)\<close> removes a real directory with all that
  is in it; on a file, a link or a missing path it fails, and the failure is ignored.
\<close>

definition rmtree :: "node \<Rightarrow> node" where
  "rmtree n = (case n of Directory _ \<Rightarrow> Missing | _ \<Rightarrow> n)"

text \<open>
  The directory listing that a path below the storage path is looked up in, or the
  error that the lookup raises.
\<close>

definition listing_of :: "node \<Rightarrow> error + listing" where
  "listing_of n =
     (case n of
        Missing \<Rightarrow> Inl FileNotFoundError
      | RegularFile \<Rightarrow> Inl NotADirectoryError
      | ProtectedFile \<Rightarrow> Inl NotADirectoryError
      | Other \<Rightarrow> Inl NotADirectoryError
      | Directory c \<Rightarrow> Inr c
      | Symlink Dangling \<Rightarrow> Inl FileNotFoundError
      | Symlink To_file \<Rightarrow> Inl NotADirectoryError
      | Symlink To_other \<Rightarrow> Inl NotADirectoryError
      | Symlink (To_dir c) \<Rightarrow> Inr c)"

definition with_listing :: "node \<Rightarrow> listing \<Rightarrow> node" where
  "with_listing n c =
     (case n of
        Directory _ \<Rightarrow> Directory c
      | Symlink (To_dir _) \<Rightarrow> Symlink (To_dir c)
      | _ \<Rightarrow> n)"

text \<open>\<open>open(file_path, 'r')\<close> and reading the whole text.\<close>

definition read_text :: "node \<Rightarrow> string \<Rightarrow> error + file_text" where
  "read_text n name =
     (case listing_of n of
        Inl e \<Rightarrow> Inl e
      | Inr c \<Rightarrow>
          (case c name of
             None \<Rightarrow> Inl FileNotFoundError
           | Some Subdirectory \<Rightarrow> Inl IsADirectoryError
           | Some (Regular t) \<Rightarrow> Inr t))"

text \<open>\<open>file_path.write_text(t)\<close> creates or overwrites a regular file.\<close>

definition write_text :: "node \<Rightarrow> string \<Rightarrow> file_text \<Rightarrow> error + node" where
  "write_text n name t =
     (case listing_of n of
        Inl e \<Rightarrow> Inl e
      | Inr c \<Rightarrow>
          (case c name of
             Some Subdirectory \<Rightarrow> Inl IsADirectoryError
           | _ \<Rightarrow> Inr (with_listing n (c(name \<mapsto> Regular t)))))"

text \<open>\<open>file_path.exists()\<close>.\<close>

definition entry_exists :: "node \<Rightarrow> string \<Rightarrow> bool" where
  "entry_exists n name = (case listing_of n of Inl e \<Rightarrow> False | Inr c \<Rightarrow> c name \<noteq> None)"

text \<open>\<open>file_path.unlink()\<close>.\<close>

definition unlink_entry :: "node \<Rightarrow> string \<Rightarrow> error + node" where
  "unlink_entry n name =
     (case listing_of n of
        Inl e \<Rightarrow> Inl e
      | Inr c \<Rightarrow>
          (case c name of
             None \<Rightarrow> Inl FileNotFoundError
           | Some Subdirectory \<Rightarrow> Inl IsADirectoryError
           | Some (Regular t) \<Rightarrow> Inr (with_listing n (c(name := None)))))"

subsection \<open>The adapter\<close>

text \<open>
  A pending operation is the pair \<open>(op_type, value)\<close> of the source: \<open>('update', v)\<close>,
  \<open>('delete', None)\<close> or \<open>('clear', None)\<close>.
\<close>

datatype operation = Update string | Delete | Clear

text \<open>
  The adapter together with the part of the world it acts on: \<open>directory\<close> is what the
  file system holds at \<open>_storage_directory\<close>, \<open>pending\<close> is the dict
  \<open>_pending_operations\<close> in insertion order. \<open>AList.update\<close> is the assignment
  \<open>d[k] = v\<close> (an existing key keeps its place, a new key goes last), \<open>AList.delete\<close>
  is \<open>d.pop(k)\<close>.
\<close>

record adapter =
  directory :: node
  pending :: "(string \<times> operation) list"

text \<open>\<open>hashlib.sha256(...).hexdigest()\<close> is a parameter of the model.\<close>

type_synonym digest = "string \<Rightarrow> string"

definition get_file_path :: "digest \<Rightarrow> string \<Rightarrow> string" where
  "get_file_path H key = H key"

definition compute_value_hash :: "digest \<Rightarrow> string \<Rightarrow> string \<Rightarrow> string" where
  "compute_value_hash H key val = H (key @ val)"

text \<open>
  The body of the \<open>try\<close> in \<open>_load_from_file\<close>; \<open>Inr None\<close> is falling out of the
  \<open>if\<close> without a \<open>return\<close>. The arguments of \<open>_compute_value_hash\<close> are
  evaluated first, then \<open>encode\<close> is called on the key and on the value, and
  \<open>data['hash']\<close> is read last.
\<close>

definition load_attempt :: "digest \<Rightarrow> node \<Rightarrow> string \<Rightarrow> error + json option" where
  "load_attempt H n name =
     (case read_text n name of Inl e \<Rightarrow> Inl e | Inr t \<Rightarrow>
      case json_load t of Inl e \<Rightarrow> Inl e | Inr data \<Rightarrow>
      case subscript data ''key'' of Inl e \<Rightarrow> Inl e | Inr k \<Rightarrow>
      case subscript data ''value'' of Inl e \<Rightarrow> Inl e | Inr v \<Rightarrow>
      case encode k of Inl e \<Rightarrow> Inl e | Inr ks \<Rightarrow>
      case encode v of Inl e \<Rightarrow> Inl e | Inr vs \<Rightarrow>
      case subscript data ''hash'' of Inl e \<Rightarrow> Inl e | Inr h \<Rightarrow>
      if h = JString (compute_value_hash H ks vs) then Inr (Some data) else Inr None)"

definition load_from_file :: "digest \<Rightarrow> node \<Rightarrow> string \<Rightarrow> error + json option" where
  "load_from_file H n name =
     (case load_attempt H n name of
        Inl e \<Rightarrow>
          if e = FileNotFoundError \<or> e = JSONDecodeError \<or> e = KeyError then Inr None
          else Inl e
      | Inr r \<Rightarrow> Inr r)"

text \<open>\<open>data['value'] if data else None\<close>.\<close>

definition value_if_any :: "json option \<Rightarrow> error + json option" where
  "value_if_any r =
     (case r of
        None \<Rightarrow> Inr None
      | Some data \<Rightarrow>
          if truthy data
          then (case subscript data ''value'' of Inl e \<Rightarrow> Inl e | Inr v \<Rightarrow> Inr (Some v))
          else Inr None)"

definition get :: "digest \<Rightarrow> string \<Rightarrow> adapter \<Rightarrow> error + json option" where
  "get H key s =
     (if map_of (pending s) key \<noteq> None \<and> map_of (pending s) key = Some Delete
      then (case load_from_file H (directory s) (get_file_path H key) of
              Inl e \<Rightarrow> Inl e | Inr previous_data \<Rightarrow> value_if_any previous_data)
      else (case load_from_file H (directory s) (get_file_path H key) of
              Inl e \<Rightarrow> Inl e | Inr data \<Rightarrow> value_if_any data))"

definition update :: "string \<Rightarrow> string \<Rightarrow> adapter \<Rightarrow> adapter" where
  "update key val s = s\<lparr>pending := AList.update key (Update val) (pending s)\<rparr>"

definition delete :: "string \<Rightarrow> adapter \<Rightarrow> adapter" where
  "delete key s = s\<lparr>pending := AList.update key Delete (pending s)\<rparr>"

definition clear :: "adapter \<Rightarrow> adapter" where
  "clear s = s\<lparr>pending := AList.update ''__clear__'' Clear []\<rparr>"

definition rollback :: "adapter \<Rightarrow> adapter" where
  "rollback s = s\<lparr>pending := []\<rparr>"

text \<open>
  \<open>commit\<close>, block by block. Each block returns the state it leaves and the exception
  it raises, if any. First the wipe (lines 72 to 75).
\<close>

definition wipe :: "adapter \<Rightarrow> adapter \<times> error option" where
  "wipe s =
     (if map_of (pending s) ''__clear__'' \<noteq> None
      then (let n = rmtree (directory s) in
            case mkdir n of
              Inl e \<Rightarrow> (s\<lparr>directory := n\<rparr>, Some e)
            | Inr n' \<Rightarrow>
                (s\<lparr>directory := n', pending := AList.delete ''__clear__'' (pending s)\<rparr>, None))
      else (s, None))"

text \<open>The repair of the storage path (lines 77 to 84).\<close>

definition repair :: "adapter \<Rightarrow> adapter \<times> error option" where
  "repair s =
     (let n = directory s in
      case (if exists n
            then (if is_file n then unlink n
                  else if is_symlink n then unlink n
                  else Inr n)
            else Inr n) of
        Inl e \<Rightarrow> (s, Some e)
      | Inr n1 \<Rightarrow>
          if \<not> exists n1
          then (case mkdir n1 of
                  Inl e \<Rightarrow> (s\<lparr>directory := n1\<rparr>, Some e)
                | Inr n2 \<Rightarrow> (s\<lparr>directory := n2\<rparr>, None))
          else (s\<lparr>directory := n1\<rparr>, None))"

text \<open>The dict \<open>data\<close> that an update writes (lines 91 to 95).\<close>

definition stored_record :: "digest \<Rightarrow> string \<Rightarrow> string \<Rightarrow> json" where
  "stored_record H key val =
     JObject [(''key'', JString key), (''value'', JString val),
       (''hash'', JString (compute_value_hash H key val))]"

text \<open>
  One turn of the loop (lines 87 to 101). The handler prints and re-raises, so every
  error of the body leaves the loop.
\<close>

definition apply_operation :: "digest \<Rightarrow> string \<Rightarrow> operation \<Rightarrow> node \<Rightarrow> error + node" where
  "apply_operation H key opr n =
     (let file_path = get_file_path H key in
      case opr of
        Update val \<Rightarrow>
          write_text n file_path (json_dumps (stored_record H key val))
      | Delete \<Rightarrow> if entry_exists n file_path then unlink_entry n file_path else Inr n
      | Clear \<Rightarrow> Inr n)"

fun apply_pending :: "digest \<Rightarrow> (string \<times> operation) list \<Rightarrow> node \<Rightarrow> node \<times> error option" where
  "apply_pending H [] n = (n, None)"
| "apply_pending H ((key, opr) # rest) n =
     (case apply_operation H key opr n of
        Inl e \<Rightarrow> (n, Some e)
      | Inr n' \<Rightarrow> apply_pending H rest n')"

definition commit :: "digest \<Rightarrow> adapter \<Rightarrow> adapter \<times> error option" where
  "commit H s =
     (case wipe s of
        (s1, Some e) \<Rightarrow> (s1, Some e)
      | (s1, None) \<Rightarrow>
     (case repair s1 of
        (s2, Some e) \<Rightarrow> (s2, Some e)
      | (s2, None) \<Rightarrow>
     (case apply_pending H (pending s2) (directory s2) of
        (n, Some e) \<Rightarrow> (s2\<lparr>directory := n\<rparr>, Some e)
      | (n, None) \<Rightarrow> (s2\<lparr>directory := n, pending := []\<rparr>, None))))"



text \<open>
  The calls that stage or discard operations, and a scope body made of such calls that
  then either ends or raises.
\<close>

datatype call = Call_update string string | Call_delete string | Call_clear | Call_rollback

fun run_call :: "call \<Rightarrow> adapter \<Rightarrow> adapter" where
  "run_call (Call_update key val) s = update key val s"
| "run_call (Call_delete key) s = delete key s"
| "run_call Call_clear s = clear s"
| "run_call Call_rollback s = rollback s"

fun run_calls :: "call list \<Rightarrow> adapter \<Rightarrow> adapter" where
  "run_calls [] s = s"
| "run_calls (c # cs) s = run_calls cs (run_call c s)"



section \<open>The cycle detector (symlink_solved.py)\<close>

subsection \<open>Paths\<close>

text \<open>
  A \<open>pathlib\<close> path: whether it is absolute, and its parts. \<open>pathlib\<close> drops
  \<open>.\<close> and empty parts and keeps \<open>..\<close>; two paths are equal when they
  are equal part by part.
\<close>

datatype path = Path bool "string list"

definition is_absolute :: "path \<Rightarrow> bool" where
  "is_absolute p = (case p of Path a parts \<Rightarrow> a)"

definition parent :: "path \<Rightarrow> path" where
  "parent p = (case p of Path a parts \<Rightarrow> Path a (butlast parts))"

text \<open>\<open>p / q\<close>.\<close>

definition joinpath :: "path \<Rightarrow> path \<Rightarrow> path" where
  "joinpath p q =
     (case q of
        Path True qs \<Rightarrow> q
      | Path False qs \<Rightarrow> (case p of Path a ps \<Rightarrow> Path a (ps @ qs)))"

text \<open>Lines 19 to 22: the path that the target of a link is looked up at.\<close>

definition resolved_target :: "path \<Rightarrow> path \<Rightarrow> path" where
  "resolved_target current_path target =
     (if is_absolute target then target else joinpath (parent current_path) target)"

subsection \<open>The function\<close>

text \<open>
  The three questions that the function asks the file system: \<open>exists()\<close> (which
  follows links), \<open>is_symlink()\<close> and \<open>readlink()\<close>. Each of them can raise.
\<close>

record fsys =
  fs_exists :: "path \<Rightarrow> error + bool"
  fs_is_symlink :: "path \<Rightarrow> error + bool"
  fs_readlink :: "path \<Rightarrow> error + path"

text \<open>
  The condition \<open>not p.exists() and not p.is_symlink()\<close> of lines 4 and 28:
  \<open>is_symlink\<close> is only asked when \<open>exists\<close> said no.
\<close>

definition neither :: "fsys \<Rightarrow> path \<Rightarrow> error + bool" where
  "neither fs p =
     (case fs_exists fs p of
        Inl e \<Rightarrow> Inl e
      | Inr ex \<Rightarrow>
          if ex then Inr False
          else (case fs_is_symlink fs p of Inl e \<Rightarrow> Inl e | Inr l \<Rightarrow> Inr (\<not> l)))"

text \<open>
  The \<open>while True\<close> loop. It may run forever, so the result is an option: \<open>None\<close>
  is not returning. \<open>Some (Inl e)\<close> is raising \<open>e\<close>, \<open>Some (Inr b)\<close> is
  returning \<open>b\<close>.
\<close>

partial_function (option) walk :: "fsys \<Rightarrow> path set \<Rightarrow> path \<Rightarrow> (error + bool) option" where
  "walk fs visited current_path =
     (case fs_readlink fs current_path of
        Inl e \<Rightarrow> if e = RuntimeError then Some (Inr False) else Some (Inl e)
      | Inr target \<Rightarrow>
          (let target_path = resolved_target current_path target
           in if target_path \<in> visited then Some (Inr True)
              else (case neither fs target_path of
                      Inl e \<Rightarrow> Some (Inl e)
                    | Inr gone \<Rightarrow>
                        if gone then Some (Inr False)
                        else (case fs_is_symlink fs target_path of
                                Inl e \<Rightarrow> Some (Inl e)
                              | Inr l \<Rightarrow>
                                  if \<not> l then Some (Inr False)
                                  else walk fs (insert target_path visited) target_path))))"

definition is_circular_symlink :: "fsys \<Rightarrow> path \<Rightarrow> (error + bool) option" where
  "is_circular_symlink fs symlink =
     (case neither fs symlink of
        Inl e \<Rightarrow> Some (Inl e)
      | Inr gone \<Rightarrow>
          if gone then Some (Inl FileNotFoundError)
          else (case fs_is_symlink fs symlink of
                  Inl e \<Rightarrow> Some (Inl e)
                | Inr l \<Rightarrow>
                    if \<not> l then Some (Inl RuntimeError)
                    else walk fs {} symlink))"

text \<open>
  The same loop with a bound on its turns: \<open>None\<close> is not having returned within
  \<open>n\<close> turns.
\<close>

fun walk_turns :: "nat \<Rightarrow> fsys \<Rightarrow> path set \<Rightarrow> path \<Rightarrow> (error + bool) option" where
  "walk_turns 0 fs visited current_path = None"
| "walk_turns (Suc n) fs visited current_path =
     (case fs_readlink fs current_path of
        Inl e \<Rightarrow> if e = RuntimeError then Some (Inr False) else Some (Inl e)
      | Inr target \<Rightarrow>
          (let target_path = resolved_target current_path target
           in if target_path \<in> visited then Some (Inr True)
              else (case neither fs target_path of
                      Inl e \<Rightarrow> Some (Inl e)
                    | Inr gone \<Rightarrow>
                        if gone then Some (Inr False)
                        else (case fs_is_symlink fs target_path of
                                Inl e \<Rightarrow> Some (Inl e)
                              | Inr l \<Rightarrow>
                                  if \<not> l then Some (Inr False)
                                  else walk_turns n fs (insert target_path visited)
                                         target_path))))"

text \<open>
  One turn of the loop: \<open>Inl\<close> what the turn leaves the loop with, \<open>Inr\<close> the
  resolved target that the loop goes on with.
\<close>

definition turn :: "fsys \<Rightarrow> path set \<Rightarrow> path \<Rightarrow> (error + bool) + path" where
  "turn fs visited current_path =
     (case fs_readlink fs current_path of
        Inl e \<Rightarrow> if e = RuntimeError then Inl (Inr False) else Inl (Inl e)
      | Inr target \<Rightarrow>
          (let target_path = resolved_target current_path target
           in if target_path \<in> visited then Inl (Inr True)
              else (case neither fs target_path of
                      Inl e \<Rightarrow> Inl (Inl e)
                    | Inr gone \<Rightarrow>
                        if gone then Inl (Inr False)
                        else (case fs_is_symlink fs target_path of
                                Inl e \<Rightarrow> Inl (Inl e)
                              | Inr l \<Rightarrow>
                                  if \<not> l then Inl (Inr False) else Inr target_path))))"

text \<open>
  \<open>is_link fs p\<close>: \<open>exists()\<close> answers for \<open>p\<close>, and \<open>is_symlink()\<close> says
  yes. \<open>follows fs cur ts\<close>: starting at the link \<open>cur\<close>, the loop computes the
  resolved targets \<open>ts\<close> in this order, and all of them but the last are links.
\<close>

definition answers :: "error + 'a \<Rightarrow> bool" where
  "answers r = (case r of Inl e \<Rightarrow> False | Inr x \<Rightarrow> True)"

definition is_link :: "fsys \<Rightarrow> path \<Rightarrow> bool" where
  "is_link fs p = (answers (fs_exists fs p) \<and> fs_is_symlink fs p = Inr True)"


subsection \<open>A file system tree\<close>

text \<open>
  A tree of directories, files and symbolic links, and the path resolution of POSIX on
  it. \<open>lookup\<close> descends through real directories only.
\<close>

datatype inode = File | Dir "(string \<times> inode) list" | Link path

fun lookup :: "inode \<Rightarrow> string list \<Rightarrow> inode option" where
  "lookup n [] = Some n"
| "lookup (Dir es) (c # cs) = (case map_of es c of None \<Rightarrow> None | Some m \<Rightarrow> lookup m cs)"
| "lookup n (c # cs) = None"

text \<open>
  \<open>resolve fuel root follow cur parts\<close> walks \<open>parts\<close> from the real directory
  \<open>cur\<close>. A link in the middle of the path is always followed, the last part only
  when \<open>follow\<close> is set (\<open>stat\<close> against \<open>lstat\<close>). \<open>fuel\<close> bounds the number
  of links followed in one resolution (\<open>ELOOP\<close>); \<open>None\<close> is any failure of
  the resolution.
\<close>

fun resolve :: "nat \<Rightarrow> inode \<Rightarrow> bool \<Rightarrow> string list \<Rightarrow> string list \<Rightarrow> inode option" where
  "resolve fuel root follow cur [] = lookup root cur"
| "resolve fuel root follow cur (c # rest) =
     (if c = ''..'' then resolve fuel root follow (butlast cur) rest
      else (case lookup root (cur @ [c]) of
              None \<Rightarrow> None
            | Some File \<Rightarrow> if rest = [] then Some File else None
            | Some (Dir es) \<Rightarrow> resolve fuel root follow (cur @ [c]) rest
            | Some (Link t) \<Rightarrow>
                if rest = [] \<and> \<not> follow then Some (Link t)
                else (case fuel of
                        0 \<Rightarrow> None
                      | Suc f \<Rightarrow>
                          (case t of Path a ts \<Rightarrow>
                             resolve f root follow (if a then [] else cur) (ts @ rest)))))"

text \<open>
  The length of a path as a string: its parts, the separators between them and the
  leading separator of an absolute path. The system refuses a path that is longer than
  \<open>path_max\<close> or has a part longer than \<open>name_max\<close> (4095 and 255 on Linux) with
  the error \<open>ENAMETOOLONG\<close>.
\<close>

definition path_length :: "path \<Rightarrow> nat" where
  "path_length p =
     (case p of Path a parts \<Rightarrow>
        (if a then 1 else 0) + sum_list (map length parts) + (length parts - 1))"

definition refused :: "nat \<Rightarrow> nat \<Rightarrow> path \<Rightarrow> bool" where
  "refused path_max name_max p =
     (case p of Path a parts \<Rightarrow>
        path_max < path_length p \<or> list_ex (\<lambda>part. name_max < length part) parts)"

text \<open>
  The answers of the tree \<open>root\<close> with working directory \<open>cwd\<close>. At most 40 links
  are followed in one resolution, as on Linux. \<open>exists()\<close> and \<open>is_symlink()\<close> say
  no when the resolution fails, and raise for a path that the system refuses, as
  \<open>pathlib\<close> of CPython up to 3.13 does.
\<close>

definition posix :: "nat \<Rightarrow> nat \<Rightarrow> inode \<Rightarrow> string list \<Rightarrow> fsys" where
  "posix path_max name_max root cwd =
     \<lparr>fs_exists = (\<lambda>p.
         if refused path_max name_max p then Inl NameTooLongError
         else (case p of Path a parts \<Rightarrow>
                 Inr (resolve 40 root True (if a then [] else cwd) parts \<noteq> None))),
      fs_is_symlink = (\<lambda>p.
         if refused path_max name_max p then Inl NameTooLongError
         else (case p of Path a parts \<Rightarrow>
                 (case resolve 40 root False (if a then [] else cwd) parts of
                    Some (Link t) \<Rightarrow> Inr True | _ \<Rightarrow> Inr False))),
      fs_readlink = (\<lambda>p.
         if refused path_max name_max p then Inl NameTooLongError
         else (case p of Path a parts \<Rightarrow>
                 (case resolve 40 root False (if a then [] else cwd) parts of
                    Some (Link t) \<Rightarrow> Inr t
                  | Some _ \<Rightarrow> Inl InvalidArgumentError
                  | None \<Rightarrow> Inl FileNotFoundError)))\<rparr>"

text \<open>The limits of Linux.\<close>

definition linux :: "inode \<Rightarrow> string list \<Rightarrow> fsys" where
  "linux root cwd = posix 4095 255 root cwd"

text \<open>
  The directory \<open>/d\<close> with the one link \<open>/d/A\<close> whose target is \<open>../d/A\<close>: a
  link to itself. \<open>nth_name n\<close> is the name \<open>/d/../d/ ... /../d/A\<close> with \<open>n\<close>
  detours through the parent directory.
\<close>

definition self_link_tree :: inode where
  "self_link_tree = Dir [(''d'', Dir [(''A'', Link (Path False [''..'', ''d'', ''A'']))])]"

definition detour :: "nat \<Rightarrow> string list" where
  "detour n = concat (replicate n [''..'', ''d''])"

definition nth_name :: "nat \<Rightarrow> path" where
  "nth_name n = Path True (''d'' # detour n @ [''A''])"



text \<open>A stand-in digest for the examples.\<close>

definition plain_digest :: digest where
  "plain_digest s = s"

section \<open>Staging does no disk I/O\<close>

lemmas node_defs = exists_def is_file_def is_symlink_def is_dir_def unlink_def mkdir_def
  rmtree_def listing_of_def with_listing_def

lemmas entry_defs = read_text_def write_text_def entry_exists_def unlink_entry_def

lemmas load_defs = load_from_file_def load_attempt_def json_load_def json_dumps_def
  subscript_def encode_def truthy_def value_if_any_def get_file_path_def
  compute_value_hash_def stored_record_def

lemma run_call_directory: "directory (run_call c s) = directory s"
  by (cases c) (simp_all add: update_def delete_def clear_def rollback_def)

lemma run_calls_directory: "directory (run_calls cs s) = directory s"
  by (induction cs arbitrary: s) (simp_all add: run_call_directory)



text \<open>
  Claim C9. \<open>update\<close>, \<open>delete\<close>, \<open>clear\<close> and \<open>rollback\<close> leave what is on disk at
  the storage path unchanged, one by one and in every sequence of such calls.
\<close>

theorem staging_leaves_disk_unchanged:
  "directory (update key val s) = directory s
   \<and> directory (delete key s) = directory s
   \<and> directory (clear s) = directory s
   \<and> directory (rollback s) = directory s
   \<and> directory (run_calls cs s) = directory s"
  by (simp add: update_def delete_def clear_def rollback_def run_calls_directory)

section \<open>Reads see the committed state only\<close>

lemma get_ignores_pending: "get H key (s\<lparr>pending := p\<rparr>) = get H key s"
  by (simp add: get_def)

text \<open>
  Claim C2. Before \<open>commit\<close>, \<open>get\<close> does not reflect a staged update: after
  \<open>update key val\<close> it returns what it returned before, the committed value or
  absent. The same holds after \<open>delete key\<close>: the value on disk is still returned. In
  fact \<open>get\<close> does not depend on the pending operations at all. The last conjunct
  makes "not absent" explicit: with a valid record for \<open>key\<close> holding \<open>w\<close> on disk,
  \<open>get\<close> returns \<open>w\<close> after a staged delete and after a staged update alike.
  ("Never \<open>val\<close>" is read as: not \<open>val\<close> on account of the staging; when the
  committed value is itself \<open>val\<close>, that is what is returned.)
\<close>

theorem get_reads_committed_state:
  "get H key (update key val s) = get H key s
   \<and> get H key (delete key s) = get H key s
   \<and> get H key (s\<lparr>pending := p\<rparr>) = get H key s
   \<and> (directory s = Directory c
        \<and> c (get_file_path H key) = Some (Regular (json_dumps (stored_record H key w)))
      \<longrightarrow> get H key (delete key s) = Inr (Some (JString w))
        \<and> get H key (update key val s) = Inr (Some (JString w)))"
proof -
  have a: "get H key (update key val s) = get H key s"
    by (simp add: update_def get_ignores_pending)
  have b: "get H key (delete key s) = get H key s"
    by (simp add: delete_def get_ignores_pending)
  have c: "get H key s = Inr (Some (JString w))"
    if "directory s = Directory c"
      and "c (get_file_path H key) = Some (Regular (json_dumps (stored_record H key w)))"
    using that by (simp add: get_def load_defs read_text_def listing_of_def)
  show ?thesis
    using a b c by (simp add: get_ignores_pending)
qed

text \<open>
  The store holds \<open>old\<close> for the key \<open>k\<close>; a staged delete and a staged update of
  \<open>k\<close> both leave \<open>get\<close> at \<open>old\<close>.
\<close>

theorem get_reads_committed_state_witness:
  "get plain_digest ''k''
     (delete ''k''
        \<lparr>directory = Directory
           [''k'' \<mapsto> Regular (json_dumps (stored_record plain_digest ''k'' ''old''))],
         pending = []\<rparr>) = Inr (Some (JString ''old''))
   \<and> get plain_digest ''k''
     (update ''k'' ''new''
        \<lparr>directory = Directory
           [''k'' \<mapsto> Regular (json_dumps (stored_record plain_digest ''k'' ''old''))],
         pending = []\<rparr>) = Inr (Some (JString ''old''))"
proof -
  let ?c = "[''k'' \<mapsto> Regular (json_dumps (stored_record plain_digest ''k'' ''old''))]"
  let ?s = "\<lparr>directory = Directory ?c, pending = []\<rparr>"
  have h: "directory ?s = Directory ?c
      \<and> ?c (get_file_path plain_digest ''k'')
        = Some (Regular (json_dumps (stored_record plain_digest ''k'' ''old'')))"
    by (simp add: get_file_path_def plain_digest_def)
  from get_reads_committed_state [of plain_digest "''k''" "''new''" ?s "[]" ?c "''old''"] h
  show ?thesis by blast
qed

section \<open>Records that do not verify\<close>

text \<open>What \<open>_load_from_file\<close> absorbs: \<open>get\<close> is absent in each of these cases.\<close>

lemma absent_file_reads_absent:
  assumes "directory s = Directory c" and "c (get_file_path H key) = None"
  shows "get H key s = Inr None"
  using assms by (simp add: get_def load_defs read_text_def listing_of_def)

lemma malformed_file_reads_absent:
  assumes "directory s = Directory c" and "c (get_file_path H key) = Some (Regular Malformed)"
  shows "get H key s = Inr None"
  using assms by (simp add: get_def load_defs read_text_def listing_of_def)

lemma altered_hash_reads_absent:
  assumes "directory s = Directory c"
    and "c (get_file_path H key) = Some (Regular (Encodes
           (JObject [(''key'', JString k), (''value'', JString v), (''hash'', h)])))"
    and "h \<noteq> JString (compute_value_hash H k v)"
  shows "get H key s = Inr None"
  using assms by (simp add: get_def load_defs read_text_def listing_of_def)

lemma missing_key_or_value_reads_absent:
  assumes "directory s = Directory c"
    and "c (get_file_path H key) = Some (Regular (Encodes (JObject items)))"
    and "map_of items ''key'' = None \<or> map_of items ''value'' = None"
  shows "get H key s = Inr None"
  using assms
  by (auto simp add: get_def load_defs read_text_def listing_of_def split: option.splits)

lemma missing_hash_of_text_record_reads_absent:
  assumes "directory s = Directory c"
    and "c (get_file_path H key) = Some (Regular (Encodes (JObject items)))"
    and "map_of items ''key'' = Some (JString k)"
    and "map_of items ''value'' = Some (JString v)"
    and "map_of items ''hash'' = None"
  shows "get H key s = Inr None"
  using assms by (simp add: get_def load_defs read_text_def listing_of_def)

text \<open>
  Bytes that are no text are not absorbed: reading them raises.
\<close>

lemma undecodable_file_raises:
  assumes "directory s = Directory c" and "c (get_file_path H key) = Some (Regular Undecodable)"
  shows "get H key s = Inl UnicodeDecodeError"
  using assms by (simp add: get_def load_defs read_text_def listing_of_def)

text \<open>
  Claim C6 says that \<open>get\<close> on a corrupt entry is absent and never an error of its
  own. The code departs from it: the handler of \<open>_load_from_file\<close> names
  \<open>FileNotFoundError\<close>, \<open>JSONDecodeError\<close> and \<open>KeyError\<close> only. A file whose JSON
  text is the array \<open>[]\<close> makes \<open>data['key']\<close> raise \<open>TypeError\<close>, and a record
  without a hash field whose key is the number \<open>1\<close> makes \<open>key.encode()\<close> raise
  \<open>AttributeError\<close>; \<open>get\<close> raises both.
\<close>

theorem corrupt_entry_raises:
  "get H key
     \<lparr>directory = Directory [get_file_path H key \<mapsto> Regular (Encodes (JArray []))],
      pending = p\<rparr> = Inl TypeError
   \<and> get H key
     \<lparr>directory = Directory [get_file_path H key \<mapsto>
        Regular (Encodes (JObject [(''key'', JNumber 1), (''value'', JString ''x'')]))],
      pending = p\<rparr> = Inl AttributeError"
  by (simp add: get_def load_defs read_text_def listing_of_def)

section \<open>The commit loop\<close>

lemma apply_pending_append:
  "apply_pending H (pre @ rest) n =
     (case apply_pending H pre n of
        (n', None) \<Rightarrow> apply_pending H rest n'
      | (n', Some e) \<Rightarrow> (n', Some e))"
  by (induction pre arbitrary: n) (auto split: sum.splits)


lemma wipe_pending:
  "wipe s = (s1, None) \<Longrightarrow> pending s1 = AList.delete ''__clear__'' (pending s)"
proof (cases "map_of (pending s) ''__clear__''")
  case None
  assume "wipe s = (s1, None)"
  with None have "s1 = s" by (simp add: wipe_def)
  moreover from None have "''__clear__'' \<notin> fst ` set (pending s)"
    by (simp add: map_of_eq_None_iff)
  ultimately show ?thesis by (simp add: AList.delete_id)
next
  case (Some a)
  assume "wipe s = (s1, None)"
  with Some show ?thesis
    by (auto simp add: wipe_def Let_def split: sum.splits)
qed


lemma repair_pending: "repair s = (s2, None) \<Longrightarrow> pending s2 = pending s"
  by (cases "directory s")
     (auto simp add: repair_def node_defs Let_def split: link_target.splits if_splits)


lemma listing_with_listing:
  "listing_of n = Inr c \<Longrightarrow> listing_of (with_listing n c') = Inr c'"
  by (cases n) (auto simp add: node_defs split: link_target.splits)

lemma apply_operation_raises_OSError:
  assumes "apply_operation H key opr n = Inl e"
  shows "is_OSError e"
proof (cases opr)
  case (Update val)
  with assms show ?thesis
    by (auto simp add: apply_operation_def entry_defs is_OSError_def listing_of_def Let_def
          split: sum.splits option.splits entry.splits node.splits link_target.splits)
next
  case Delete
  with assms show ?thesis
    by (auto simp add: apply_operation_def entry_defs is_OSError_def listing_of_def Let_def
          split: sum.splits option.splits entry.splits node.splits link_target.splits
            if_splits)
next
  case Clear
  with assms show ?thesis
    by (simp add: apply_operation_def)
qed


lemma apply_operation_shape:
  assumes "apply_operation H k opr n = Inr n'"
  shows "n' = n
     \<or> (\<exists>c t. listing_of n = Inr c \<and> listing_of n' = Inr (c(H k \<mapsto> t)))
     \<or> (\<exists>c. listing_of n = Inr c \<and> listing_of n' = Inr (c(H k := None)))"
proof (cases opr)
  case (Update val)
  with assms show ?thesis
    by (auto simp add: apply_operation_def entry_defs get_file_path_def Let_def
          listing_with_listing split: sum.splits option.splits entry.splits)
next
  case Delete
  with assms show ?thesis
    by (auto simp add: apply_operation_def entry_defs get_file_path_def Let_def
          listing_with_listing split: sum.splits option.splits entry.splits if_splits)
next
  case Clear
  with assms show ?thesis
    by (simp add: apply_operation_def)
qed

lemma apply_operation_keeps:
  assumes "apply_operation H k opr n = Inr n'" and "listing_of n = Inr c"
    and "H k \<noteq> name"
  shows "\<exists>c'. listing_of n' = Inr c' \<and> c' name = c name"
proof -
  from apply_operation_shape [OF assms(1)] assms(2) consider
    (same) "n' = n"
    | (written) t where "listing_of n' = Inr (c(H k \<mapsto> t))"
    | (removed) "listing_of n' = Inr (c(H k := None))"
    by auto
  then show ?thesis
  proof cases
    case same
    with assms(2) show ?thesis by (intro exI [of _ c]) simp
  next
    case written
    then show ?thesis using assms(3) by (intro exI [of _ "c(H k \<mapsto> t)"]) simp
  next
    case removed
    then show ?thesis using assms(3) by (intro exI [of _ "c(H k := None)"]) simp
  qed
qed

lemma apply_pending_keeps:
  assumes "apply_pending H ps n = (n', None)" and "listing_of n = Inr c"
    and "\<forall>k \<in> fst ` set ps. H k \<noteq> name"
  shows "\<exists>c'. listing_of n' = Inr c' \<and> c' name = c name"
  using assms
proof (induction ps arbitrary: n c)
  case Nil
  then have "n' = n" by simp
  with Nil.prems(2) show ?case by (intro exI [of _ c]) simp
next
  case (Cons a ps)
  obtain k opr where a: "a = (k, opr)" by (cases a)
  from Cons.prems(1) a obtain n1 where
    1: "apply_operation H k opr n = Inr n1"
    and 2: "apply_pending H ps n1 = (n', None)"
    by (auto split: sum.splits)
  from Cons.prems(3) a have "H k \<noteq> name" by simp
  from apply_operation_keeps [OF 1 Cons.prems(2) this] obtain c1 where
    c1: "listing_of n1 = Inr c1" "c1 name = c name" by blast
  from Cons.prems(3) have "\<forall>k \<in> fst ` set ps. H k \<noteq> name" by simp
  from Cons.IH [OF 2 c1(1) this] c1(2) show ?case by simp
qed

lemma apply_update_writes:
  assumes "apply_operation H key (Update val) n = Inr n'"
  shows "\<exists>c'. listing_of n' = Inr c'
     \<and> c' (get_file_path H key) = Some (Regular (json_dumps (stored_record H key val)))"
proof -
  from assms obtain c where c: "listing_of n = Inr c"
    and n': "n' = with_listing n
        (c(get_file_path H key \<mapsto> Regular (json_dumps (stored_record H key val))))"
    by (auto simp add: apply_operation_def entry_defs Let_def
          split: sum.splits option.splits entry.splits)
  show ?thesis
    unfolding n' using listing_with_listing [OF c]
    by (intro exI [of _ "c(get_file_path H key \<mapsto>
          Regular (json_dumps (stored_record H key val)))"]) simp
qed



lemma apply_pending_writes:
  assumes "apply_pending H ps n = (n', None)"
    and "distinct (map fst ps)"
    and "map_of ps key = Some (Update val)"
    and "\<forall>k \<in> fst ` set ps. H k = H key \<longrightarrow> k = key"
  shows "\<exists>c'. listing_of n' = Inr c'
     \<and> c' (get_file_path H key) = Some (Regular (json_dumps (stored_record H key val)))"
  using assms
proof (induction ps arbitrary: n)
  case Nil
  then show ?case by simp
next
  case (Cons a ps)
  obtain k opr where a: "a = (k, opr)" by (cases a)
  from Cons.prems(1) a obtain n1 where
    1: "apply_operation H k opr n = Inr n1"
    and 2: "apply_pending H ps n1 = (n', None)"
    by (auto split: sum.splits)
  show ?case
  proof (cases "k = key")
    case True
    with Cons.prems(3) a have "opr = Update val" by simp
    with 1 True apply_update_writes obtain c1 where
      c1: "listing_of n1 = Inr c1"
        "c1 (get_file_path H key) = Some (Regular (json_dumps (stored_record H key val)))"
      by blast
    have "\<forall>k' \<in> fst ` set ps. H k' \<noteq> get_file_path H key"
    proof
      fix k' assume k': "k' \<in> fst ` set ps"
      with Cons.prems(2) a True have "k' \<noteq> key" by auto
      moreover from k' Cons.prems(4) have "H k' = H key \<longrightarrow> k' = key" by auto
      ultimately show "H k' \<noteq> get_file_path H key" by (auto simp add: get_file_path_def)
    qed
    from apply_pending_keeps [OF 2 c1(1) this] c1(2) show ?thesis by simp
  next
    case False
    from Cons.prems(2) have d: "distinct (map fst ps)" by simp
    from Cons.prems(3) a False have m: "map_of ps key = Some (Update val)" by simp
    from Cons.prems(4) have f: "\<forall>k \<in> fst ` set ps. H k = H key \<longrightarrow> k = key" by simp
    from Cons.IH [OF 2 d m f] show ?thesis .
  qed
qed


lemma get_of_stored_record:
  assumes "listing_of (directory s) = Inr c"
    and "c (get_file_path H key) = Some (Regular (json_dumps (stored_record H key val)))"
  shows "get H key s = Inr (Some (JString val))"
  using assms by (simp add: get_def load_defs read_text_def)


text \<open>What a commit that returns normally has done for one staged key.\<close>

lemma commit_parts:
  assumes "commit H s = (s', r)"
  obtains (wipe_raises) e where "wipe s = (s', Some e)" "r = Some e"
  | (repair_raises) s1 e where "wipe s = (s1, None)" "repair s1 = (s', Some e)" "r = Some e"
  | (loop) s1 s2 n where "wipe s = (s1, None)" "repair s1 = (s2, None)"
      "apply_pending H (pending s2) (directory s2) = (n, r)"
      "s' = (if r = None then s2\<lparr>directory := n, pending := []\<rparr> else s2\<lparr>directory := n\<rparr>)"
  using assms
  by (auto simp add: commit_def split: prod.splits option.splits)

lemma commit_applies_update:
  assumes "commit H s = (s', None)"
    and "key \<noteq> ''__clear__''"
    and "distinct (map fst (pending s))"
    and "map_of (pending s) key = Some (Update val)"
    and "\<forall>k \<in> fst ` set (pending s). H k = H key \<longrightarrow> k = key"
  shows "get H key s' = Inr (Some (JString val))"
  using assms(1)
proof (cases rule: commit_parts)
  case (loop s1 s2 n)
  have p2: "pending s2 = AList.delete ''__clear__'' (pending s)"
    using wipe_pending [OF loop(1)] repair_pending [OF loop(2)] by simp
  have d: "distinct (map fst (pending s2))"
    unfolding p2 by (intro distinct_delete assms(3))
  have m: "map_of (pending s2) key = Some (Update val)"
    unfolding p2 using assms(2,4) by simp
  have "fst ` set (pending s2) \<subseteq> fst ` set (pending s)"
    unfolding p2 by (rule dom_delete_subset)
  with assms(5) have f: "\<forall>k \<in> fst ` set (pending s2). H k = H key \<longrightarrow> k = key"
    by blast
  from apply_pending_writes [OF loop(3) d m f] obtain c' where
    "listing_of n = Inr c'"
    "c' (get_file_path H key) = Some (Regular (json_dumps (stored_record H key val)))"
    by blast
  then show ?thesis
    using loop(4) by (intro get_of_stored_record [of _ c']) simp_all
qed simp_all






section \<open>The round trip\<close>

text \<open>
  For every key but \<open>__clear__\<close>: when no other staged key has the same digest and
  \<open>commit\<close> returns normally, \<open>update\<close>, \<open>commit\<close>, \<open>get\<close> returns the value.
\<close>

lemma round_trip_of_other_keys:
  assumes "key \<noteq> ''__clear__''"
    and "distinct (map fst (pending s))"
    and "\<forall>k \<in> fst ` set (pending s). H k = H key \<longrightarrow> k = key"
    and "commit H (update key val s) = (s', None)"
  shows "get H key s' = Inr (Some (JString val))"
proof (rule commit_applies_update [OF assms(4) assms(1)])
  show "distinct (map fst (pending (update key val s)))"
    by (simp add: update_def distinct_update assms(2))
  show "map_of (pending (update key val s)) key = Some (Update val)"
    by (simp add: update_def update_conv')
  show "\<forall>k \<in> fst ` set (pending (update key val s)). H k = H key \<longrightarrow> k = key"
    using assms(3) by (auto simp add: update_def dom_update)
qed

text \<open>
  Claim C1 says that \<open>update\<close>, \<open>commit\<close>, \<open>get\<close> returns the value for every
  text key. The code departs from it at the key \<open>__clear__\<close>: \<open>update\<close> stores
  the operation under the key that \<open>commit\<close> takes for the wipe marker, so
  \<open>commit\<close> removes everything in the storage directory, pops the entry without
  applying it, and \<open>get\<close> of the key is absent.
\<close>

theorem update_of_clear_key_is_lost:
  "commit H (update ''__clear__'' v \<lparr>directory = Directory c, pending = []\<rparr>)
     = (\<lparr>directory = Directory Map.empty, pending = []\<rparr>, None)
   \<and> get H ''__clear__''
       (fst (commit H (update ''__clear__'' v \<lparr>directory = Directory c, pending = []\<rparr>)))
     = Inr None"
proof -
  have c: "commit H (update ''__clear__'' v \<lparr>directory = Directory c, pending = []\<rparr>)
     = (\<lparr>directory = Directory Map.empty, pending = []\<rparr>, None)"
    by (simp add: commit_def wipe_def repair_def update_def node_defs Let_def)
  have g: "get H ''__clear__'' \<lparr>directory = Directory Map.empty, pending = []\<rparr> = Inr None"
    by (simp add: get_def load_defs read_text_def listing_of_def)
  show ?thesis by (simp add: c g)
qed

section \<open>A failing operation\<close>

text \<open>
  Claim C3. Let the wipe and the repair of the storage path succeed and leave the
  staged operations \<open>pre @ (key, opr) # post\<close>; let the operations \<open>pre\<close> succeed
  and turn the directory into \<open>n\<close>, and let the operation on \<open>key\<close> raise \<open>e\<close>
  there (an \<open>OSError\<close>, as every error of an operation is). Then \<open>commit\<close>
  raises \<open>e\<close>, the directory is \<open>n\<close> (what \<open>pre\<close> did
  stays, nothing of \<open>post\<close> is done, nothing is undone), and the staged operations
  are still there: they are those staged before the call, less the wipe marker.
\<close>

theorem commit_aborts_at_failing_operation:
  assumes "wipe s = (s1, None)"
    and "repair s1 = (s2, None)"
    and "pending s2 = pre @ (key, opr) # post"
    and "apply_pending H pre (directory s2) = (n, None)"
    and "apply_operation H key opr n = Inl e"
  shows "commit H s = (s2\<lparr>directory := n\<rparr>, Some e)
     \<and> pending (fst (commit H s)) = pre @ (key, opr) # post
     \<and> AList.delete ''__clear__'' (pending s) = pre @ (key, opr) # post
     \<and> is_OSError e"
proof -
  have "apply_pending H (pending s2) (directory s2) = (n, Some e)"
    using assms(3-5) by (simp add: apply_pending_append)
  then have c: "commit H s = (s2\<lparr>directory := n\<rparr>, Some e)"
    using assms(1,2) by (simp add: commit_def)
  have "pending s2 = AList.delete ''__clear__'' (pending s)"
    using wipe_pending [OF assms(1)] repair_pending [OF assms(2)] by simp
  with c assms(3) apply_operation_raises_OSError [OF assms(5)] show ?thesis by simp
qed

text \<open>
  Three staged updates, the second at a digest where a subdirectory sits: the first is
  written, the second raises \<open>IsADirectoryError\<close>, the third is not written.
\<close>

theorem commit_aborts_at_failing_operation_witness:
  "commit plain_digest
     \<lparr>directory = Directory [''b'' \<mapsto> Subdirectory],
      pending = [(''a'', Update ''1''), (''b'', Update ''2''), (''c'', Update ''3'')]\<rparr>
   = (\<lparr>directory = Directory [''b'' \<mapsto> Subdirectory,
          ''a'' \<mapsto> Regular (json_dumps (stored_record plain_digest ''a'' ''1''))],
       pending = [(''a'', Update ''1''), (''b'', Update ''2''), (''c'', Update ''3'')]\<rparr>,
      Some IsADirectoryError)"
proof -
  let ?s = "\<lparr>directory = Directory [''b'' \<mapsto> Subdirectory],
      pending = [(''a'', Update ''1''), (''b'', Update ''2''), (''c'', Update ''3'')]\<rparr>"
  let ?n = "Directory [''b'' \<mapsto> Subdirectory,
          ''a'' \<mapsto> Regular (json_dumps (stored_record plain_digest ''a'' ''1''))]"
  have 1: "wipe ?s = (?s, None)"
    by (simp add: wipe_def)
  have 2: "repair ?s = (?s, None)"
    by (simp add: repair_def node_defs)
  have 3: "pending ?s = [(''a'', Update ''1'')] @ (''b'', Update ''2'') # [(''c'', Update ''3'')]"
    by simp
  have 4: "apply_pending plain_digest [(''a'', Update ''1'')] (directory ?s) = (?n, None)"
    by (simp add: apply_operation_def entry_defs node_defs get_file_path_def plain_digest_def
          Let_def)
  have 5: "apply_operation plain_digest ''b'' (Update ''2'') ?n = Inl IsADirectoryError"
    by (simp add: apply_operation_def entry_defs node_defs get_file_path_def plain_digest_def
          Let_def)
  from commit_aborts_at_failing_operation [OF 1 2 3 4 5] show ?thesis by simp
qed

section \<open>Clearing the store\<close>

text \<open>
  On a storage path that is missing or a directory (also through a link), \<open>clear\<close>
  followed by \<open>commit\<close> leaves an empty directory and nothing staged.
\<close>

lemma clear_then_commit_on_a_directory:
  assumes "directory s = Missing \<or> is_dir (directory s)"
  shows "commit H (clear s) = (\<lparr>directory = Directory Map.empty, pending = []\<rparr>, None)"
  using assms
  by (cases "directory s")
     (auto simp add: commit_def wipe_def repair_def clear_def node_defs Let_def
        split: link_target.splits)

lemma clear_discards_staged: "pending (clear s) = [(''__clear__'', Clear)]"
  by (simp add: clear_def)

text \<open>
  Claim C4 says that \<open>clear\<close> followed by \<open>commit\<close> leaves the store empty. The
  code departs from it when the storage path is a regular file, or a link to one:
  \<open>rmtree\<close> fails there and is ignored, and the \<open>mkdir\<close> of the wipe (line 74) comes
  before the repair of the path (lines 77 to 84), so \<open>commit\<close> raises
  \<open>FileExistsError\<close>, removes nothing and keeps the wipe marker staged. The same
  \<open>commit\<close> without the \<open>clear\<close> replaces the file by an empty directory.
\<close>

theorem clear_on_a_file_raises:
  "commit H (clear \<lparr>directory = RegularFile, pending = p\<rparr>)
     = (\<lparr>directory = RegularFile, pending = [(''__clear__'', Clear)]\<rparr>, Some FileExistsError)
   \<and> commit H (clear \<lparr>directory = Symlink To_file, pending = p\<rparr>)
     = (\<lparr>directory = Symlink To_file, pending = [(''__clear__'', Clear)]\<rparr>,
        Some FileExistsError)
   \<and> commit H \<lparr>directory = RegularFile, pending = []\<rparr>
     = (\<lparr>directory = Directory Map.empty, pending = []\<rparr>, None)
   \<and> commit H \<lparr>directory = Symlink To_file, pending = []\<rparr>
     = (\<lparr>directory = Directory Map.empty, pending = []\<rparr>, None)"
  by (simp add: commit_def wipe_def repair_def clear_def node_defs Let_def)

section \<open>Scoped transactions\<close>






section \<open>The key that is spelled like the wipe marker\<close>

lemma commit_of_marker_entry:
  "commit H (s\<lparr>pending := [(''__clear__'', x)]\<rparr>)
     = (if directory s = Missing \<or> is_dir (directory s)
        then (\<lparr>directory = Directory Map.empty, pending = []\<rparr>, None)
        else (s\<lparr>pending := [(''__clear__'', x)]\<rparr>, Some FileExistsError))"
  by (cases "directory s")
     (auto simp add: commit_def wipe_def repair_def node_defs Let_def
        split: link_target.splits)

text \<open>
  Claim C10, as amended. After \<open>clear\<close>, \<open>update\<close> or \<open>delete\<close> of the key
  \<open>__clear__\<close> replaces the staged entry under that key. \<open>commit\<close> tests only
  whether the key is present, so it still wipes the store as it does after \<open>clear\<close>
  alone: it raises the same error, if any, and every key whose digest is not that of
  \<open>__clear__\<close> reads as it does after \<open>clear\<close> and \<open>commit\<close>; on a directory
  the commit returns normally and every such key is absent.
\<close>

theorem clear_key_still_wipes:
  "pending (update ''__clear__'' v (clear s)) = [(''__clear__'', Update v)]
   \<and> pending (delete ''__clear__'' (clear s)) = [(''__clear__'', Delete)]
   \<and> snd (commit H (update ''__clear__'' v (clear s))) = snd (commit H (clear s))
   \<and> snd (commit H (delete ''__clear__'' (clear s))) = snd (commit H (clear s))
   \<and> (H key \<noteq> H ''__clear__'' \<longrightarrow>
        get H key (fst (commit H (update ''__clear__'' v (clear s))))
          = get H key (fst (commit H (clear s)))
        \<and> get H key (fst (commit H (delete ''__clear__'' (clear s))))
          = get H key (fst (commit H (clear s))))
   \<and> (H key \<noteq> H ''__clear__'' \<and> directory s = Directory c \<longrightarrow>
        snd (commit H (update ''__clear__'' v (clear s))) = None
        \<and> get H key (fst (commit H (update ''__clear__'' v (clear s)))) = Inr None
        \<and> snd (commit H (delete ''__clear__'' (clear s))) = None
        \<and> get H key (fst (commit H (delete ''__clear__'' (clear s)))) = Inr None)"
proof -
  let ?u = "update ''__clear__'' v (clear s)"
  let ?d = "delete ''__clear__'' (clear s)"
  let ?e = "\<lparr>directory = Directory Map.empty, pending = []\<rparr>"
  have u: "?u = s\<lparr>pending := [(''__clear__'', Update v)]\<rparr>"
    by (simp add: update_def clear_def)
  have d: "?d = s\<lparr>pending := [(''__clear__'', Delete)]\<rparr>"
    by (simp add: delete_def clear_def)
  have c: "clear s = s\<lparr>pending := [(''__clear__'', Clear)]\<rparr>"
    by (simp add: clear_def)
  have pu: "pending ?u = [(''__clear__'', Update v)]" and pd: "pending ?d = [(''__clear__'', Delete)]"
    by (simp_all add: u d)
  have e: "get H key ?e = Inr None"
    by (simp add: get_def load_defs read_text_def listing_of_def)
  have cu: "commit H ?u
      = (if directory s = Missing \<or> is_dir (directory s) then (?e, None)
         else (?u, Some FileExistsError))"
    by (subst (1 2) u) (rule commit_of_marker_entry)
  have cd: "commit H ?d
      = (if directory s = Missing \<or> is_dir (directory s) then (?e, None)
         else (?d, Some FileExistsError))"
    by (subst (1 2) d) (rule commit_of_marker_entry)
  have cc: "commit H (clear s)
      = (if directory s = Missing \<or> is_dir (directory s) then (?e, None)
         else (clear s, Some FileExistsError))"
    by (subst (1 2) c) (rule commit_of_marker_entry)
  have same: "snd (commit H ?u) = snd (commit H (clear s))
      \<and> snd (commit H ?d) = snd (commit H (clear s))
      \<and> get H key (fst (commit H ?u)) = get H key (fst (commit H (clear s)))
      \<and> get H key (fst (commit H ?d)) = get H key (fst (commit H (clear s)))"
  proof (cases "directory s = Missing \<or> is_dir (directory s)")
    case True
    then have "commit H ?u = (?e, None)" "commit H ?d = (?e, None)"
      "commit H (clear s) = (?e, None)"
      using cu cd cc by simp_all
    then show ?thesis by simp
  next
    case False
    then have f: "commit H ?u = (?u, Some FileExistsError)"
      "commit H ?d = (?d, Some FileExistsError)"
      "commit H (clear s) = (clear s, Some FileExistsError)"
      using cu cd cc by simp_all
    have g1: "get H key ?u = get H key s"
      by (simp only: u get_ignores_pending)
    have g2: "get H key ?d = get H key s"
      by (simp only: d get_ignores_pending)
    have g3: "get H key (clear s) = get H key s"
      by (simp only: c get_ignores_pending)
    note g = g1 g2 g3
    show ?thesis by (simp only: f fst_conv snd_conv g simp_thms)
  qed
  have wiped: "snd (commit H ?u) = None \<and> get H key (fst (commit H ?u)) = Inr None
      \<and> snd (commit H ?d) = None \<and> get H key (fst (commit H ?d)) = Inr None"
    if "directory s = Directory c" for c
  proof -
    from that have "directory s = Missing \<or> is_dir (directory s)"
      by (simp add: is_dir_def)
    then have "commit H ?u = (?e, None)" "commit H ?d = (?e, None)"
      using cu cd by simp_all
    with e show ?thesis by simp
  qed
  from pu pd same wiped show ?thesis by blast
qed

text \<open>
  The store holds \<open>old\<close> for \<open>k\<close>; after \<open>clear\<close>, an update or a delete of
  \<open>__clear__\<close>, and \<open>commit\<close>, the key \<open>k\<close> is absent.
\<close>

theorem clear_key_still_wipes_witness:
  "get plain_digest ''k''
     (fst (commit plain_digest (update ''__clear__'' ''v'' (clear
        \<lparr>directory = Directory
           [''k'' \<mapsto> Regular (json_dumps (stored_record plain_digest ''k'' ''old''))],
         pending = []\<rparr>)))) = Inr None
   \<and> get plain_digest ''k''
     (fst (commit plain_digest (delete ''__clear__'' (clear
        \<lparr>directory = Directory
           [''k'' \<mapsto> Regular (json_dumps (stored_record plain_digest ''k'' ''old''))],
         pending = []\<rparr>)))) = Inr None"
proof -
  let ?c = "[''k'' \<mapsto> Regular (json_dumps (stored_record plain_digest ''k'' ''old''))]"
  let ?s = "\<lparr>directory = Directory ?c, pending = []\<rparr>"
  have h: "plain_digest ''k'' \<noteq> plain_digest ''__clear__'' \<and> directory ?s = Directory ?c"
    by (simp add: plain_digest_def)
  from clear_key_still_wipes [of "''v''" ?s plain_digest "''k''" ?c] h
  show ?thesis by blast
qed

text \<open>
  The claim as stated fails: it says that this \<open>commit\<close> does not wipe the store.
  The store holds \<open>old\<close> for \<open>k\<close>; after \<open>clear\<close>, \<open>update\<close> of \<open>__clear__\<close>
  and \<open>commit\<close>, the directory is empty and \<open>k\<close> is absent.
\<close>

theorem clear_key_counterexample:
  "commit plain_digest (update ''__clear__'' ''v'' (clear
        \<lparr>directory = Directory
           [''k'' \<mapsto> Regular (json_dumps (stored_record plain_digest ''k'' ''old''))],
         pending = []\<rparr>))
     = (\<lparr>directory = Directory Map.empty, pending = []\<rparr>, None)
   \<and> get plain_digest ''k'' \<lparr>directory = Directory Map.empty, pending = []\<rparr> = Inr None
   \<and> get plain_digest ''k''
      \<lparr>directory = Directory
         [''k'' \<mapsto> Regular (json_dumps (stored_record plain_digest ''k'' ''old''))],
       pending = []\<rparr> = Inr (Some (JString ''old''))"
proof -
  let ?s = "\<lparr>directory = Directory
      [''k'' \<mapsto> Regular (json_dumps (stored_record plain_digest ''k'' ''old''))],
    pending = []\<rparr>"
  have c: "commit plain_digest (update ''__clear__'' ''v'' (clear ?s))
      = (\<lparr>directory = Directory Map.empty, pending = []\<rparr>, None)"
    by (simp add: commit_def wipe_def repair_def update_def clear_def node_defs Let_def)
  have g: "get plain_digest ''k'' \<lparr>directory = Directory Map.empty, pending = []\<rparr> = Inr None"
    by (simp add: get_def load_defs read_text_def listing_of_def)
  have o: "get plain_digest ''k'' ?s = Inr (Some (JString ''old''))"
    by (simp add: get_def load_defs read_text_def listing_of_def plain_digest_def)
  from c g o show ?thesis by (intro conjI)
qed

section \<open>The cycle detector\<close>

lemma neither_of_link: "is_link fs p \<Longrightarrow> neither fs p = Inr False"
  by (auto simp add: is_link_def answers_def neither_def split: sum.splits)




section \<open>Termination of the walk\<close>

text \<open>The loop, and the loop with a bound on its turns, turn by turn.\<close>

lemma loop_body_turn:
  "(case fs_readlink fs cur of
      Inl e \<Rightarrow> if e = RuntimeError then Some (Inr False) else Some (Inl e)
    | Inr target \<Rightarrow>
        (let target_path = resolved_target cur target
         in if target_path \<in> V then Some (Inr True)
            else (case neither fs target_path of
                    Inl e \<Rightarrow> Some (Inl e)
                  | Inr gone \<Rightarrow>
                      if gone then Some (Inr False)
                      else (case fs_is_symlink fs target_path of
                              Inl e \<Rightarrow> Some (Inl e)
                            | Inr l \<Rightarrow>
                                if \<not> l then Some (Inr False)
                                else f fs (insert target_path V) target_path))))
   = (case turn fs V cur of Inl res \<Rightarrow> Some res | Inr tp \<Rightarrow> f fs (insert tp V) tp)"
  by (simp add: turn_def Let_def split: sum.splits)

lemma walk_turn:
  "walk fs V cur =
     (case turn fs V cur of Inl res \<Rightarrow> Some res | Inr tp \<Rightarrow> walk fs (insert tp V) tp)"
  by (subst walk.simps) (rule loop_body_turn)

lemma walk_turns_turn:
  "walk_turns (Suc n) fs V cur =
     (case turn fs V cur of Inl res \<Rightarrow> Some res | Inr tp \<Rightarrow> walk_turns n fs (insert tp V) tp)"
  by (simp only: walk_turns.simps loop_body_turn [where f = "walk_turns n"])

lemma walk_turns_returns:
  "walk_turns n fs V cur = Some r \<Longrightarrow> walk fs V cur = Some r"
proof (induction n arbitrary: V cur)
  case 0
  then show ?case by simp
next
  case (Suc n)
  show ?case
  proof (cases "turn fs V cur")
    case (Inl res)
    with Suc.prems show ?thesis
      by (subst walk_turn) (simp only: walk_turns_turn sum.case)
  next
    case (Inr tp)
    with Suc.prems have "walk_turns n fs (insert tp V) tp = Some r"
      by (simp only: walk_turns_turn sum.case)
    from Suc.IH [OF this] Inr show ?thesis
      by (subst walk_turn) (simp only: sum.case)
  qed
qed

lemma walk_needs_turns:
  assumes ret: "walk fs V cur = Some r"
  shows "\<exists>n. walk_turns n fs V cur = Some r"
proof (rule walk.raw_induct [where P = "\<lambda>fs V cur r. \<exists>n. walk_turns n fs V cur = Some r",
    OF _ ret], goal_cases)
  case (1 walk' fs V cur r)
  from 1(2) have body: "(case turn fs V cur of Inl res \<Rightarrow> Some res
      | Inr tp \<Rightarrow> walk' fs (insert tp V) tp) = Some r"
    by (simp only: loop_body_turn [where f = walk'])
  show ?case
  proof (cases "turn fs V cur")
    case (Inl res)
    with body have "walk_turns (Suc 0) fs V cur = Some r"
      by (simp only: walk_turns_turn sum.case)
    then show ?thesis by blast
  next
    case (Inr tp)
    with body have "walk' fs (insert tp V) tp = Some r"
      by (simp only: sum.case)
    from 1(1) [OF this] obtain n where "walk_turns n fs (insert tp V) tp = Some r"
      by blast
    with Inr have "walk_turns (Suc n) fs V cur = Some r"
      by (simp only: walk_turns_turn sum.case)
    then show ?thesis by blast
  qed
qed

text \<open>
  The visited set ends the walk whenever the names that the walk can reach are
  finitely many: every turn of the loop that goes on adds a new one of them to the
  set. \<open>S\<close> is any finite set of names that holds the start and, with a link, its
  resolved target.
\<close>

lemma turn_goes_on:
  assumes "turn fs V cur = Inr tp"
  shows "tp \<notin> V \<and> (\<exists>t. fs_readlink fs cur = Inr t \<and> resolved_target cur t = tp)"
  using assms
  by (auto simp add: turn_def Let_def split: sum.splits if_splits)

lemma walk_returns_on_finitely_many_names:
  assumes fin: "finite S"
    and closed: "\<And>p t. p \<in> S \<Longrightarrow> fs_readlink fs p = Inr t \<Longrightarrow> resolved_target p t \<in> S"
    and start: "cur \<in> S"
  shows "\<exists>r. walk fs V cur = Some r"
  using start
proof (induction "card (S - V)" arbitrary: V cur rule: less_induct)
  case less
  show ?case
  proof (cases "turn fs V cur")
    case (Inl res)
    then show ?thesis by (subst walk_turn) (simp only: sum.case, blast)
  next
    case (Inr tp)
    from turn_goes_on [OF Inr] closed [OF less.prems] have new: "tp \<notin> V" and inS: "tp \<in> S"
      by auto
    have "S - insert tp V \<subset> S - V"
      using new inS by auto
    then have "card (S - insert tp V) < card (S - V)"
      using fin by (intro psubset_card_mono) simp_all
    from less.hyps [OF this inS] obtain r where "walk fs (insert tp V) tp = Some r"
      by blast
    with Inr show ?thesis
      by (subst walk_turn) (simp only: sum.case, blast)
  qed
qed

text \<open>
  Names are compared as \<open>pathlib\<close> builds them, and \<open>..\<close> is kept. With the link
  \<open>/d/A\<close> to \<open>../d/A\<close> every turn reaches the same link under a name that is five
  characters longer, until the system refuses the name.
\<close>

lemma detour_Suc: "detour (Suc n) = ''..'' # ''d'' # detour n"
  by (simp add: detour_def)

lemma detour_snoc: "detour (Suc n) = detour n @ [''..'', ''d'']"
  by (induction n) (simp_all add: detour_def)

lemma length_detour: "length (detour n) = 2 * n"
  by (induction n) (simp_all add: detour_Suc, simp add: detour_def)

lemma sum_length_detour: "sum_list (map length (detour n)) = 3 * n"
  by (induction n) (simp_all add: detour_Suc, simp add: detour_def)

lemma short_parts_detour: "2 \<le> name_max \<Longrightarrow> \<not> list_ex (\<lambda>part. name_max < length part) (detour n)"
  by (induction n) (simp_all add: detour_Suc, simp add: detour_def)

lemma nth_name_inj: "nth_name m = nth_name n \<Longrightarrow> m = n"
proof -
  assume "nth_name m = nth_name n"
  then have "length (detour m) = length (detour n)"
    by (simp add: nth_name_def)
  then show "m = n" by (simp add: length_detour)
qed

lemma path_length_nth_name: "path_length (nth_name n) = 4 + 5 * n"
  by (simp add: path_length_def nth_name_def length_detour sum_length_detour)

lemma refused_nth_name:
  "2 \<le> name_max \<Longrightarrow> refused path_max name_max (nth_name n) = (path_max < 4 + 5 * n)"
  using path_length_nth_name [of n] short_parts_detour [of name_max n]
  by (simp add: refused_def nth_name_def)

lemma resolve_detour:
  "resolve f self_link_tree fl [''d''] (detour n @ rest)
     = resolve f self_link_tree fl [''d''] rest"
  by (induction n) (simp_all add: detour_Suc, simp_all add: detour_def self_link_tree_def)

lemma resolve_nth_name:
  "resolve (Suc f) self_link_tree False [] (''d'' # detour n @ [''A''])
     = Some (Link (Path False [''..'', ''d'', ''A'']))"
proof -
  have "resolve (Suc f) self_link_tree False [] (''d'' # detour n @ [''A''])
      = resolve (Suc f) self_link_tree False [''d''] (detour n @ [''A''])"
    by (simp add: self_link_tree_def)
  also have "\<dots> = resolve (Suc f) self_link_tree False [''d''] [''A'']"
    by (rule resolve_detour)
  also have "\<dots> = Some (Link (Path False [''..'', ''d'', ''A'']))"
    by (simp add: self_link_tree_def)
  finally show ?thesis .
qed

lemma fits_nth_name:
  assumes "2 \<le> name_max" and "4 + 5 * n \<le> path_max"
  shows "fs_readlink (posix path_max name_max self_link_tree []) (nth_name n)
       = Inr (Path False [''..'', ''d'', ''A''])"
    and "fs_is_symlink (posix path_max name_max self_link_tree []) (nth_name n) = Inr True"
    and "answers (fs_exists (posix path_max name_max self_link_tree []) (nth_name n))"
proof -
  from assms have r: "\<not> refused path_max name_max (nth_name n)"
    by (simp add: refused_nth_name)
  show "fs_readlink (posix path_max name_max self_link_tree []) (nth_name n)
       = Inr (Path False [''..'', ''d'', ''A''])"
    using r resolve_nth_name [of 39 n] by (simp add: posix_def) (simp add: nth_name_def)
  show "fs_is_symlink (posix path_max name_max self_link_tree []) (nth_name n) = Inr True"
    using r resolve_nth_name [of 39 n] by (simp add: posix_def) (simp add: nth_name_def)
  show "answers (fs_exists (posix path_max name_max self_link_tree []) (nth_name n))"
    using r by (simp add: posix_def answers_def split: path.splits)
qed

lemma too_long_nth_name:
  assumes "2 \<le> name_max" and "path_max < 4 + 5 * n"
  shows "fs_exists (posix path_max name_max self_link_tree []) (nth_name n)
       = Inl NameTooLongError"
  using assms by (simp add: posix_def refused_nth_name)

lemma resolved_target_nth_name:
  "resolved_target (nth_name n) (Path False [''..'', ''d'', ''A'']) = nth_name (Suc n)"
  by (simp add: resolved_target_def is_absolute_def parent_def joinpath_def nth_name_def
        detour_snoc)

lemma fresh_nth_name: "V \<subseteq> nth_name ` {..n} \<Longrightarrow> nth_name (Suc n) \<notin> V"
proof
  assume V: "V \<subseteq> nth_name ` {..n}" and "nth_name (Suc n) \<in> V"
  then obtain m where "m \<le> n" "nth_name (Suc n) = nth_name m" by auto
  then show False using nth_name_inj by fastforce
qed

text \<open>One turn at the \<open>n\<close>-th name, when the next name still fits and when it does not.\<close>

lemma turn_goes_to_next_name:
  assumes "2 \<le> name_max" and "4 + 5 * Suc n \<le> path_max" and "V \<subseteq> nth_name ` {..n}"
  shows "turn (posix path_max name_max self_link_tree []) V (nth_name n) = Inr (nth_name (Suc n))"
proof -
  let ?fs = "posix path_max name_max self_link_tree []"
  from assms(2) have here: "4 + 5 * n \<le> path_max" by simp
  from fits_nth_name(3) [OF assms(1,2)] fits_nth_name(2) [OF assms(1,2)]
  have "neither ?fs (nth_name (Suc n)) = Inr False"
    by (intro neither_of_link) (simp add: is_link_def)
  then show ?thesis
    using fits_nth_name(1) [OF assms(1) here] fits_nth_name(2) [OF assms(1,2)]
      fresh_nth_name [OF assms(3)]
    by (simp add: turn_def resolved_target_nth_name Let_def)
qed

lemma turn_raises_at_long_name:
  assumes "2 \<le> name_max" and "4 + 5 * n \<le> path_max" and "path_max < 4 + 5 * Suc n"
    and "V \<subseteq> nth_name ` {..n}"
  shows "turn (posix path_max name_max self_link_tree []) V (nth_name n)
       = Inl (Inl NameTooLongError)"
  using fits_nth_name(1) [OF assms(1,2)] too_long_nth_name [OF assms(1,3)]
    fresh_nth_name [OF assms(4)]
  by (simp add: turn_def resolved_target_nth_name neither_def Let_def)

lemma walk_raises_name_too_long:
  assumes "2 \<le> name_max"
  shows "4 + 5 * n \<le> path_max \<Longrightarrow> V \<subseteq> nth_name ` {..n}
     \<Longrightarrow> walk (posix path_max name_max self_link_tree []) V (nth_name n)
       = Some (Inl NameTooLongError)"
proof (induction "path_max - 5 * n" arbitrary: n V rule: less_induct)
  case less
  show ?case
  proof (cases "4 + 5 * Suc n \<le> path_max")
    case True
    have sub: "insert (nth_name (Suc n)) V \<subseteq> nth_name ` {..Suc n}"
      using less.prems(2) by (auto simp: atMost_Suc)
    have "path_max - 5 * Suc n < path_max - 5 * n"
      using True by simp
    from less.hyps [OF this True sub]
    show ?thesis
      by (subst walk_turn)
         (simp only: turn_goes_to_next_name [OF assms True less.prems(2)] sum.case)
  next
    case False
    then have "path_max < 4 + 5 * Suc n" by simp
    from turn_raises_at_long_name [OF assms less.prems(1) this less.prems(2)]
    show ?thesis
      by (subst walk_turn) (simp only: sum.case)
  qed
qed

lemma walk_turns_not_returned:
  assumes "2 \<le> name_max"
  shows "4 + 5 * (n + m) \<le> path_max \<Longrightarrow> V \<subseteq> nth_name ` {..n}
     \<Longrightarrow> walk_turns m (posix path_max name_max self_link_tree []) V (nth_name n) = None"
proof (induction m arbitrary: n V)
  case 0
  show ?case by simp
next
  case (Suc m)
  from Suc.prems(1) have next_fits: "4 + 5 * Suc n \<le> path_max" by simp
  have sub: "insert (nth_name (Suc n)) V \<subseteq> nth_name ` {..Suc n}"
    using Suc.prems(2) by (auto simp: atMost_Suc)
  from Suc.prems(1) have "4 + 5 * (Suc n + m) \<le> path_max" by simp
  from Suc.IH [OF this sub] show ?case
    by (simp only: walk_turns_turn turn_goes_to_next_name [OF assms next_fits Suc.prems(2)]
          sum.case)
qed

text \<open>
  Claim C8 says that the function ends on every finite input after a number of steps
  in proportion to the length of the chain, because a resolved target that comes again
  is reported as a cycle. The code departs from it: on the tree with the single link
  \<open>/d/A\<close> to \<open>../d/A\<close>, a chain of length one that is a cycle, no resolved target
  ever comes again. With the limits of Linux the loop has not returned after 800
  turns, and it ends by raising the error of a name that is too long; the cycle is not
  reported.
\<close>

theorem self_link_is_not_reported:
  "is_circular_symlink (linux self_link_tree []) (Path True [''d'', ''A''])
     = Some (Inl NameTooLongError)
   \<and> walk_turns 800 (linux self_link_tree []) {} (Path True [''d'', ''A'']) = None"
proof -
  let ?fs = "posix 4095 255 self_link_tree []"
  have a0: "nth_name 0 = Path True [''d'', ''A'']"
    by (simp add: nth_name_def detour_def)
  have nm: "(2::nat) \<le> 255" by simp
  have w: "walk ?fs {} (nth_name 0) = Some (Inl NameTooLongError)"
    by (rule walk_raises_name_too_long [OF nm]) simp_all
  have t: "walk_turns 800 ?fs {} (nth_name 0) = None"
    by (rule walk_turns_not_returned [OF nm]) simp_all
  have l: "is_link ?fs (nth_name 0)"
    using fits_nth_name(2,3) [OF nm, of 0 4095] by (simp add: is_link_def)
  have "is_circular_symlink ?fs (nth_name 0) = walk ?fs {} (nth_name 0)"
    using l neither_of_link [OF l] by (simp add: is_circular_symlink_def is_link_def)
  with w t show ?thesis
    by (simp only: linux_def a0 simp_thms)
qed

end
